theory Spec2Isabelle
  imports Main "HOL-Library.Word"
begin

unbundle bit_operations_syntax

section \<open>CAN intrusion detection on the PIC32MZ node\<close>

text \<open>
  A shallow embedding of the detection engine of
  \<^verbatim>\<open>industrialNetwork/PIC32MZ/original.c\<close>: the identifier firewall
  \<^verbatim>\<open>id_in_ranges\<close>, the baseline store \<^verbatim>\<open>learn_baseline\<close>, the classifier
  \<^verbatim>\<open>detect_anomaly\<close> and the dispatcher \<^verbatim>\<open>CAN_MessageReceived\<close> with its
  traffic window. The C globals and the dispatcher's static window form one state
  record that every function takes and returns; loops are recursive functions over the
  loop index, in the order the C code visits it.
\<close>

subsection \<open>Data\<close>

text \<open>
  The struct declarations live in \<^verbatim>\<open>sensors.h\<close>, which is not part of the sources at
  hand; the records below have the fields that \<^verbatim>\<open>original.c\<close> reads and writes.
  \<^verbatim>\<open>IdRange.end\<close> is written \<open>end_id\<close> and the two fields of \<^verbatim>\<open>BaselinePattern\<close>
  that share their names with \<^verbatim>\<open>CANMessage\<close> carry the prefix \<open>bl_\<close>.
  The payload \<^verbatim>\<open>data\<close> and the \<^verbatim>\<open>expected_pattern\<close> are arrays of 8 bytes,
  \<^verbatim>\<open>baselines\<close> is an array of 100 entries and the ring one of \<^verbatim>\<open>WINDOW_SIZE\<close>
  frames: lists here, whose lengths the well-formedness predicates further down state.
\<close>

record IdRange =
  start :: "32 word"
  end_id :: "32 word"

record CANMessage =
  can_id :: "32 word"
  dlc :: "8 word"
  data :: "8 word list"
  timestamp :: "32 word"

record BaselinePattern =
  bl_can_id :: "32 word"
  bl_dlc :: "8 word"
  expected_pattern :: "8 word list"

text \<open>
  Modelled from the spec: \<^verbatim>\<open>MessageWindow\<close> is declared in the missing header. The
  spec describes it as a fixed-capacity ring of the most recently admitted frames, a write
  cursor and an admitted-frame counter. The counter is an unsigned integer field whose
  width the header fixes: its number of bits is the parameter \<open>N\<close> of the dispatcher,
  and \<^verbatim>\<open>window.count++\<close> wraps modulo \<open>2 ^ N\<close>. The cursor is reduced modulo
  \<^verbatim>\<open>WINDOW_SIZE\<close> by the code at every step; it indexes the ring, and its field is
  taken to hold every index of the ring, so it is a natural number below \<^verbatim>\<open>WINDOW_SIZE\<close>.
\<close>

record MessageWindow =
  messages :: "CANMessage list"
  index :: nat
  count :: nat

text \<open>
  Modelled from the spec: the two alert kinds \<^verbatim>\<open>ALERT_ANOMALY_DETECTED\<close> and
  \<^verbatim>\<open>ALERT_DOS_DETECTED\<close> are constants of the missing header.
\<close>

datatype alert_type = ALERT_ANOMALY_DETECTED | ALERT_DOS_DETECTED

text \<open>
  The state: the constant table \<^verbatim>\<open>idRanges\<close> (its entries are macros of the missing
  header, so the table is left open), the globals \<^verbatim>\<open>baselines\<close> and
  \<^verbatim>\<open>baseline_count\<close> (a \<^verbatim>\<open>uint8_t\<close>), the static \<^verbatim>\<open>window\<close> of the dispatcher, and
  the alerts that \<^verbatim>\<open>log_alert\<close> has sent to the UART, oldest first.
\<close>

record ids_state =
  idRanges :: "IdRange list"
  baselines :: "BaselinePattern list"
  baseline_count :: "8 word"
  window :: MessageWindow
  uart_log :: "alert_type list"

text \<open>The three \<^verbatim>\<open>return true\<close> statements of \<^verbatim>\<open>detect_anomaly\<close>, by their comments.\<close>

datatype anomaly = UnknownIdentifier | LengthMismatch | PayloadOutOfRange

subsection \<open>The identifier firewall\<close>

text \<open>
  \<^verbatim>\<open>for (size_t i = 0; i < idRangesCount; i++)
    if (ident >= idRanges[i].start && ident <= idRanges[i].end) return true;
  return false;\<close>
\<close>

function id_in_ranges_loop :: "nat \<Rightarrow> 32 word \<Rightarrow> ids_state \<Rightarrow> bool \<times> ids_state" where
  "id_in_ranges_loop i ident s =
     (if i < length (idRanges s) then
        (if start (idRanges s ! i) \<le> ident \<and> ident \<le> end_id (idRanges s ! i) then (True, s)
         else id_in_ranges_loop (Suc i) ident s)
      else (False, s))"
  by pat_completeness auto
termination
  by (relation "measure (\<lambda>(i, ident, s). length (idRanges s) - i)") auto

declare id_in_ranges_loop.simps [simp del]

definition id_in_ranges :: "32 word \<Rightarrow> ids_state \<Rightarrow> bool \<times> ids_state" where
  "id_in_ranges ident s = id_in_ranges_loop 0 ident s"

subsection \<open>The baseline store\<close>

text \<open>
  \<^verbatim>\<open>learn_baseline\<close>: the search loop returns from the function at the first entry with
  the frame's identifier, after refreshing its length; when the loop runs out, the code
  after it adds an entry if \<^verbatim>\<open>baseline_count < 100\<close>, copying all 8 payload bytes.
\<close>

function learn_baseline_loop :: "nat \<Rightarrow> CANMessage \<Rightarrow> ids_state \<Rightarrow> ids_state" where
  "learn_baseline_loop i msg s =
     (if i < unat (baseline_count s) then
        (if bl_can_id (baselines s ! i) = can_id msg then
           s\<lparr>baselines := (baselines s)[i := (baselines s ! i)\<lparr>bl_dlc := dlc msg\<rparr>]\<rparr>
         else learn_baseline_loop (Suc i) msg s)
      else
        (if baseline_count s < 100 then
           (let n = unat (baseline_count s) in
            s\<lparr>baselines := (baselines s)[n := (baselines s ! n)
                  \<lparr>bl_can_id := can_id msg, bl_dlc := dlc msg,
                   expected_pattern := map (\<lambda>j. data msg ! j) [0..<8]\<rparr>],
              baseline_count := baseline_count s + 1\<rparr>)
         else s))"
  by pat_completeness auto
termination
  by (relation "measure (\<lambda>(i, msg, s). unat (baseline_count s) - i)") auto

declare learn_baseline_loop.simps [simp del]

definition learn_baseline :: "CANMessage \<Rightarrow> ids_state \<Rightarrow> ids_state" where
  "learn_baseline msg s = learn_baseline_loop 0 msg s"

subsection \<open>The classifier\<close>

text \<open>
  Check 2 of \<^verbatim>\<open>detect_anomaly\<close>: the loop stops at the first entry with the frame's
  identifier; it returns from the function (\<open>True\<close>) when the lengths differ and breaks
  (\<open>False\<close>) when they agree.
\<close>

function dlc_check_loop :: "nat \<Rightarrow> CANMessage \<Rightarrow> ids_state \<Rightarrow> bool \<times> ids_state" where
  "dlc_check_loop i msg s =
     (if i < unat (baseline_count s) then
        (if bl_can_id (baselines s ! i) = can_id msg then
           (dlc msg \<noteq> bl_dlc (baselines s ! i), s)
         else dlc_check_loop (Suc i) msg s)
      else (False, s))"
  by pat_completeness auto
termination
  by (relation "measure (\<lambda>(i, msg, s). unat (baseline_count s) - i)") auto

declare dlc_check_loop.simps [simp del]

text \<open>
  The body of \<^verbatim>\<open>detect_anomaly\<close>, with each \<^verbatim>\<open>return true\<close> labelled by the check it
  belongs to; \<open>None\<close> is the final \<^verbatim>\<open>return false\<close>. \<open>detect_anomaly\<close> is the C
  function's boolean.
\<close>

definition detect_anomaly_reason :: "CANMessage \<Rightarrow> ids_state \<Rightarrow> anomaly option \<times> ids_state" where
  "detect_anomaly_reason msg s =
     (case id_in_ranges (can_id msg) s of (ok, s1) \<Rightarrow>
        if \<not> ok then (Some UnknownIdentifier, s1)
        else
          (case dlc_check_loop 0 msg s1 of (changed, s2) \<Rightarrow>
             if changed then (Some LengthMismatch, s2)
             else if 0x300 \<le> can_id msg \<and> can_id msg \<le> 0x399 then
               (let temp_value = data msg ! 0 in
                if 120 < temp_value then (Some PayloadOutOfRange, s2) else (None, s2))
             else (None, s2)))"

definition detect_anomaly :: "CANMessage \<Rightarrow> ids_state \<Rightarrow> bool \<times> ids_state" where
  "detect_anomaly msg s =
     (case detect_anomaly_reason msg s of (v, s') \<Rightarrow> (v \<noteq> None, s'))"

subsection \<open>The alert sink\<close>

text \<open>
  \<^verbatim>\<open>log_alert\<close> prints the alert type into the UART buffer and starts the DMA transfer;
  the model appends the alert type to the log. \<^verbatim>\<open>raise_intrusion_alert\<close> only calls
  \<^verbatim>\<open>log_alert\<close>.
\<close>

definition log_alert :: "CANMessage \<Rightarrow> alert_type \<Rightarrow> ids_state \<Rightarrow> ids_state" where
  "log_alert msg a s = s\<lparr>uart_log := uart_log s @ [a]\<rparr>"

definition raise_intrusion_alert :: "CANMessage \<Rightarrow> alert_type \<Rightarrow> ids_state \<Rightarrow> ids_state" where
  "raise_intrusion_alert msg a s = log_alert msg a s"

subsection \<open>The flood threshold \<^verbatim>\<open>WINDOW_SIZE * 0.7\<close>\<close>

text \<open>
  The comparison \<^verbatim>\<open>id_counts[i] > (WINDOW_SIZE * 0.7)\<close> is made in binary64: the literal
  \<^verbatim>\<open>0.7\<close> is the double \<open>6305039478318694 / 2 ^ 53\<close>, the integer \<^verbatim>\<open>WINDOW_SIZE\<close> converts
  exactly, and the product is rounded to 53 significant bits, to nearest, ties to even.
  All values are kept as natural numbers scaled by \<open>2 ^ 53\<close>: \<open>shift53 p\<close> is the number
  of low bits that \<open>p\<close> has beyond 53, \<open>double_round p\<close> the rounded \<open>p\<close>. A
  \<^verbatim>\<open>uint32_t\<close> count converts to a double exactly.
\<close>

definition double_0_7 :: nat where
  "double_0_7 = 6305039478318694"

function shift53 :: "nat \<Rightarrow> nat" where
  "shift53 p = (if p < 2 ^ 53 then 0 else Suc (shift53 (p div 2)))"
  by pat_completeness auto
termination
  by (relation "measure (\<lambda>p. p)") auto

declare shift53.simps [simp del]

definition round_nearest_even :: "nat \<Rightarrow> nat \<Rightarrow> nat" where
  "round_nearest_even p k =
     (let q = p div 2 ^ k; r = p mod 2 ^ k in
      if 2 ^ k < 2 * r \<or> (2 * r = 2 ^ k \<and> odd q) then (q + 1) * 2 ^ k else q * 2 ^ k)"

definition double_round :: "nat \<Rightarrow> nat" where
  "double_round p = round_nearest_even p (shift53 p)"

definition dos_threshold :: "nat \<Rightarrow> nat" where
  "dos_threshold W = double_round (W * double_0_7)"

definition exceeds_threshold :: "nat \<Rightarrow> 32 word \<Rightarrow> bool" where
  "exceeds_threshold W c = (dos_threshold W < unat c * 2 ^ 53)"

subsection \<open>The dispatcher and its traffic window\<close>

text \<open>
  \<^verbatim>\<open>WINDOW_SIZE\<close> is a macro of the missing header: the parameter \<open>W\<close>; \<open>N\<close> is
  the width of the counter field in bits.
  The histogram loop counts, for each slot of the ring, the low 8 bits of the identifier;
  the scan loop returns (\<open>True\<close>) at the first bucket over the threshold.
\<close>

function count_ids_loop :: "nat \<Rightarrow> nat \<Rightarrow> CANMessage list \<Rightarrow> 32 word list \<Rightarrow> 32 word list" where
  "count_ids_loop W i msgs id_counts =
     (if i < W then
        (let id_hash = unat (can_id (msgs ! i) AND 0xFF) in
         count_ids_loop W (Suc i) msgs (id_counts[id_hash := id_counts ! id_hash + 1]))
      else id_counts)"
  by pat_completeness auto
termination
  by (relation "measure (\<lambda>(W, i, msgs, id_counts). W - i)") auto

declare count_ids_loop.simps [simp del]

function dos_scan_loop :: "nat \<Rightarrow> nat \<Rightarrow> 32 word list \<Rightarrow> bool" where
  "dos_scan_loop W i id_counts =
     (if i < 256 then
        (if exceeds_threshold W (id_counts ! i) then True
         else dos_scan_loop W (Suc i) id_counts)
      else False)"
  by pat_completeness auto
termination
  by (relation "measure (\<lambda>(W, i, id_counts). 256 - i)") auto

declare dos_scan_loop.simps [simp del]

definition CAN_MessageReceived :: "nat \<Rightarrow> nat \<Rightarrow> CANMessage \<Rightarrow> ids_state \<Rightarrow> ids_state" where
  "CAN_MessageReceived W N msg s =
     (case detect_anomaly msg s of (anomalous, s1) \<Rightarrow>
        if anomalous then raise_intrusion_alert msg ALERT_ANOMALY_DETECTED s1
        else
          (let w = window s1;
               w1 = w\<lparr>messages := (messages w)[index w := msg]\<rparr>;
               w2 = w1\<lparr>index := (index w1 + 1) mod W\<rparr>;
               w3 = w2\<lparr>count := (count w2 + 1) mod 2 ^ N\<rparr>;
               s2 = s1\<lparr>window := w3\<rparr>
           in if W \<le> count w3 then
                (let id_counts = count_ids_loop W 0 (messages w3) (replicate 256 0) in
                 if dos_scan_loop W 0 id_counts
                 then raise_intrusion_alert msg ALERT_DOS_DETECTED s2
                 else s2)
              else s2))"


definition learn_all :: "CANMessage list \<Rightarrow> ids_state \<Rightarrow> ids_state" where
  "learn_all ms s = foldl (\<lambda>t m. learn_baseline m t) s ms"

subsection \<open>Start state and well-formedness\<close>

text \<open>
  At start the C globals are zero: \<^verbatim>\<open>baseline_count = 0\<close>, \<^verbatim>\<open>baselines\<close> has static
  storage, \<^verbatim>\<open>window = {0}\<close>, and nothing has been logged.
\<close>

definition zero_message :: CANMessage where
  "zero_message = \<lparr>can_id = 0, dlc = 0, data = replicate 8 0, timestamp = 0\<rparr>"

definition zero_baseline :: BaselinePattern where
  "zero_baseline = \<lparr>bl_can_id = 0, bl_dlc = 0, expected_pattern = replicate 8 0\<rparr>"

definition start_state :: "nat \<Rightarrow> IdRange list \<Rightarrow> ids_state" where
  "start_state W rs =
     \<lparr>idRanges = rs, baselines = replicate 100 zero_baseline, baseline_count = 0,
      window = \<lparr>messages = replicate W zero_message, index = 0, count = 0\<rparr>,
      uart_log = []\<rparr>"

definition store_ok :: "ids_state \<Rightarrow> bool" where
  "store_ok s = (length (baselines s) = 100 \<and> baseline_count s \<le> 100)"

definition window_ok :: "nat \<Rightarrow> ids_state \<Rightarrow> bool" where
  "window_ok W s = (length (messages (window s)) = W \<and> index (window s) < W)"

text \<open>
  The store as the spec speaks of it: the entries in use, and the lookup of an identifier
  (the first entry in use that carries it).
\<close>

definition entries :: "ids_state \<Rightarrow> BaselinePattern list" where
  "entries s = take (unat (baseline_count s)) (baselines s)"

definition lookup :: "ids_state \<Rightarrow> 32 word \<Rightarrow> BaselinePattern option" where
  "lookup s ident = find (\<lambda>b. bl_can_id b = ident) (entries s)"

text \<open>The bucket of a frame, and the number of frames of a list that fall into a bucket.\<close>

definition id_hash :: "CANMessage \<Rightarrow> nat" where
  "id_hash m = unat (can_id m AND 0xFF)"



subsection \<open>Example configuration and frames\<close>

text \<open>
  A table with the temperature range \<^verbatim>\<open>0x300\<close> to \<^verbatim>\<open>0x399\<close> only, and frames
  with a given identifier, length and first payload byte, for the concrete runs below.
\<close>

definition example_ranges :: "IdRange list" where
  "example_ranges = [\<lparr>start = 0x300, end_id = 0x399\<rparr>]"

definition frame :: "32 word \<Rightarrow> 8 word \<Rightarrow> 8 word \<Rightarrow> CANMessage" where
  "frame i d b = \<lparr>can_id = i, dlc = d, data = [b, 0, 0, 0, 0, 0, 0, 0], timestamp = 0\<rparr>"

definition hundred_frames :: "CANMessage list" where
  "hundred_frames = map (\<lambda>i. frame (0x300 + of_nat i) 1 25) [0..<100]"



section \<open>The loops\<close>

lemma id_in_ranges_loop_state: "snd (id_in_ranges_loop i ident s) = s"
  by (induction i ident s rule: id_in_ranges_loop.induct)
     (subst id_in_ranges_loop.simps, simp)

lemma id_in_ranges_loop_iff:
  "fst (id_in_ranges_loop i ident s) \<longleftrightarrow>
     (\<exists>j. i \<le> j \<and> j < length (idRanges s) \<and>
          start (idRanges s ! j) \<le> ident \<and> ident \<le> end_id (idRanges s ! j))"
proof (induction i ident s rule: id_in_ranges_loop.induct)
  case (1 i ident s)
  show ?case
  proof (cases "i < length (idRanges s)")
    case False
    then show ?thesis by (subst id_in_ranges_loop.simps) auto
  next
    case True
    show ?thesis
    proof (cases "start (idRanges s ! i) \<le> ident \<and> ident \<le> end_id (idRanges s ! i)")
      case hit: True
      with True show ?thesis by (subst id_in_ranges_loop.simps) auto
    next
      case miss: False
      have "fst (id_in_ranges_loop i ident s) = fst (id_in_ranges_loop (Suc i) ident s)"
        using True miss by (subst id_in_ranges_loop.simps) auto
      also have "\<dots> \<longleftrightarrow> (\<exists>j. Suc i \<le> j \<and> j < length (idRanges s) \<and>
          start (idRanges s ! j) \<le> ident \<and> ident \<le> end_id (idRanges s ! j))"
        using "1.IH" True miss by simp
      also have "\<dots> \<longleftrightarrow> (\<exists>j. i \<le> j \<and> j < length (idRanges s) \<and>
          start (idRanges s ! j) \<le> ident \<and> ident \<le> end_id (idRanges s ! j))"
        using miss by (metis Suc_leD Suc_leI le_neq_implies_less)
      finally show ?thesis .
    qed
  qed
qed

lemma id_in_ranges_iff:
  "fst (id_in_ranges ident s) \<longleftrightarrow>
     (\<exists>r \<in> set (idRanges s). start r \<le> ident \<and> ident \<le> end_id r)"
  unfolding id_in_ranges_def id_in_ranges_loop_iff
  by (auto simp: in_set_conv_nth intro: bexI [OF _ nth_mem])

lemma id_in_ranges_state: "snd (id_in_ranges ident s) = s"
  by (simp add: id_in_ranges_def id_in_ranges_loop_state)

lemma id_in_ranges_eq:
  "id_in_ranges ident s = (\<exists>r \<in> set (idRanges s). start r \<le> ident \<and> ident \<le> end_id r, s)"
  using id_in_ranges_iff [of ident s] id_in_ranges_state [of ident s]
  by (cases "id_in_ranges ident s") simp

lemma dlc_check_loop_state: "snd (dlc_check_loop i msg s) = s"
  by (induction i msg s rule: dlc_check_loop.induct)
     (subst dlc_check_loop.simps, simp)

lemma dlc_check_loop_find:
  "unat (baseline_count s) \<le> length (baselines s) \<Longrightarrow>
   fst (dlc_check_loop i msg s) \<longleftrightarrow>
     (\<exists>b. find (\<lambda>b. bl_can_id b = can_id msg) (drop i (entries s)) = Some b \<and>
          dlc msg \<noteq> bl_dlc b)"
proof (induction i msg s rule: dlc_check_loop.induct)
  case (1 i msg s)
  show ?case
  proof (cases "i < unat (baseline_count s)")
    case False
    then show ?thesis by (subst dlc_check_loop.simps) (simp add: entries_def)
  next
    case True
    then have d: "drop i (entries s) = baselines s ! i # drop (Suc i) (entries s)"
      using "1.prems" by (simp add: entries_def Cons_nth_drop_Suc [symmetric])
    show ?thesis
      using True "1.IH" "1.prems" by (subst dlc_check_loop.simps) (simp add: d)
  qed
qed

lemma dlc_check_loop_eq:
  "store_ok s \<Longrightarrow>
   dlc_check_loop 0 msg s =
     (\<exists>b. lookup s (can_id msg) = Some b \<and> dlc msg \<noteq> bl_dlc b, s)"
proof -
  assume "store_ok s"
  then have "unat (baseline_count s) \<le> length (baselines s)"
    by (simp add: store_ok_def word_le_nat_alt)
  from dlc_check_loop_find [OF this, of 0 msg] dlc_check_loop_state [of 0 msg s]
  show ?thesis by (cases "dlc_check_loop 0 msg s") (simp add: lookup_def)
qed

lemma detect_anomaly_reason_state: "snd (detect_anomaly_reason msg s) = s"
  by (simp add: detect_anomaly_reason_def id_in_ranges_eq Let_def split: prod.splits)
     (metis dlc_check_loop_state snd_conv)

section \<open>The classifier and the dispatcher's anomaly path\<close>

lemma frame_sel [simp]:
  "can_id (frame i d b) = i" "dlc (frame i d b) = d" "data (frame i d b) ! 0 = b"
  "timestamp (frame i d b) = 0" "length (data (frame i d b)) = 8"
  by (simp_all add: frame_def)

lemma store_ok_start: "store_ok (start_state W rs)"
  by (simp add: store_ok_def start_state_def)

lemma learn_first:
  "learn_baseline m (start_state W rs) =
     (start_state W rs)\<lparr>baselines := (replicate 100 zero_baseline)
        [0 := \<lparr>bl_can_id = can_id m, bl_dlc = dlc m,
               expected_pattern = map (\<lambda>j. data m ! j) [0..<8]\<rparr>],
        baseline_count := 1\<rparr>"
  by (simp add: learn_baseline_def learn_baseline_loop.simps start_state_def zero_baseline_def)

lemma detect_anomaly_reason_eq:
  "store_ok s \<Longrightarrow>
   detect_anomaly_reason m s =
     (if \<not> fst (id_in_ranges (can_id m) s) then Some UnknownIdentifier
      else if \<exists>b. lookup s (can_id m) = Some b \<and> dlc m \<noteq> bl_dlc b
        then Some LengthMismatch
      else if 0x300 \<le> can_id m \<and> can_id m \<le> 0x399 \<and> 120 < data m ! 0
        then Some PayloadOutOfRange
      else None, s)"
  using id_in_ranges_state [of "can_id m" s]
  by (cases "id_in_ranges (can_id m) s")
     (auto simp: detect_anomaly_reason_def dlc_check_loop_eq)

lemma detect_anomaly_state: "snd (detect_anomaly m s) = s"
  using detect_anomaly_reason_state [of m s]
  by (cases "detect_anomaly_reason m s") (simp add: detect_anomaly_def)

text \<open>
  Claim C1. A frame whose identifier lies in none of the configured ranges is classified
  as anomalous by the first check (unknown identifier), whatever its payload and whatever
  the baseline store holds: nothing is assumed about either.
\<close>

theorem unknown_identifier_first:
  assumes "\<forall>r \<in> set (idRanges s). \<not> (start r \<le> can_id m \<and> can_id m \<le> end_id r)"
  shows "fst (detect_anomaly_reason m s) = Some UnknownIdentifier \<and> fst (detect_anomaly m s)"
  using assms by (simp add: detect_anomaly_def detect_anomaly_reason_def id_in_ranges_eq)

text \<open>Scenario 1 of the spec: identifier \<^verbatim>\<open>0x050\<close> lies in no range.\<close>

theorem unknown_identifier_first_witness:
  "fst (detect_anomaly_reason (frame 0x050 1 25) (start_state 10 example_ranges))
     = Some UnknownIdentifier \<and>
   fst (detect_anomaly (frame 0x050 1 25) (start_state 10 example_ranges))"
  using unknown_identifier_first [of "start_state 10 example_ranges" "frame 0x050 1 25"]
  by (simp add: start_state_def example_ranges_def)

text \<open>
  Claim C2. In a well-formed store, the length check fires exactly for a frame that passes
  the firewall, has a baseline entry, and whose \<^verbatim>\<open>dlc\<close> differs from the stored length:
  it does not fire when the lengths agree, nor when the identifier has no entry. A frame
  without an entry gets the verdict it gets with an empty store.
\<close>

theorem length_mismatch_iff:
  assumes "store_ok s"
  shows "(fst (detect_anomaly_reason m s) = Some LengthMismatch \<longleftrightarrow>
            fst (id_in_ranges (can_id m) s) \<and>
            (\<exists>b. lookup s (can_id m) = Some b \<and> dlc m \<noteq> bl_dlc b))
         \<and> (lookup s (can_id m) = None \<longrightarrow>
              fst (detect_anomaly_reason m s) =
              fst (detect_anomaly_reason m (s\<lparr>baseline_count := 0\<rparr>)))"
proof -
  have ok0: "store_ok (s\<lparr>baseline_count := 0\<rparr>)"
    using assms by (simp add: store_ok_def)
  have l0: "lookup (s\<lparr>baseline_count := 0\<rparr>) (can_id m) = None"
    by (simp add: lookup_def entries_def)
  show ?thesis
    by (auto simp: detect_anomaly_reason_eq [OF assms] detect_anomaly_reason_eq [OF ok0]
        id_in_ranges_eq l0)
qed

text \<open>
  Scenario 2 of the spec: \<^verbatim>\<open>0x300\<close> is learned with length 1; the same identifier with
  length 2 is a length mismatch, with length 1 it is admitted, and \<^verbatim>\<open>0x301\<close>, never
  learned, is admitted with length 2.
\<close>

theorem length_mismatch_iff_witness:
  "store_ok (learn_baseline (frame 0x300 1 25) (start_state 10 example_ranges)) \<and>
   fst (detect_anomaly_reason (frame 0x300 2 25)
     (learn_baseline (frame 0x300 1 25) (start_state 10 example_ranges))) = Some LengthMismatch \<and>
   fst (detect_anomaly_reason (frame 0x300 1 25)
     (learn_baseline (frame 0x300 1 25) (start_state 10 example_ranges))) = None \<and>
   lookup (learn_baseline (frame 0x300 1 25) (start_state 10 example_ranges)) 0x301 = None \<and>
   fst (detect_anomaly_reason (frame 0x301 2 25)
     (learn_baseline (frame 0x300 1 25) (start_state 10 example_ranges))) = None"
proof -
  let ?s = "learn_baseline (frame 0x300 1 25) (start_state 10 example_ranges)"
  have ok: "store_ok ?s"
    unfolding learn_first by (simp add: store_ok_def start_state_def)
  have e: "entries ?s = [\<lparr>bl_can_id = 0x300, bl_dlc = 1, expected_pattern = [25, 0, 0, 0, 0, 0, 0, 0]\<rparr>]"
    unfolding learn_first
    by (simp add: entries_def start_state_def frame_def upt_rec numeral_nat)
  have r: "idRanges ?s = example_ranges"
    unfolding learn_first by (simp add: start_state_def)
  have l: "lookup ?s 0x300 = Some \<lparr>bl_can_id = 0x300, bl_dlc = 1, expected_pattern = [25, 0, 0, 0, 0, 0, 0, 0]\<rparr>"
    "lookup ?s 0x301 = None"
    by (simp_all add: lookup_def e)
  have inr: "fst (id_in_ranges i ?s) \<longleftrightarrow> 0x300 \<le> i \<and> i \<le> 0x399" for i
    unfolding id_in_ranges_eq r by (simp add: example_ranges_def)
  have a: "fst (detect_anomaly_reason (frame 0x300 2 25) ?s) = Some LengthMismatch"
    using length_mismatch_iff [OF ok, of "frame 0x300 2 25"] l inr by simp
  have b: "fst (detect_anomaly_reason (frame 0x300 1 25) ?s) = None"
    by (simp add: detect_anomaly_reason_eq [OF ok] inr l)
  have c: "fst (detect_anomaly_reason (frame 0x301 2 25) ?s) = None"
    by (simp add: detect_anomaly_reason_eq [OF ok] inr l)
  show ?thesis using ok a b c l by simp
qed

text \<open>
  Claim C3. For a frame of the temperature domain \<^verbatim>\<open>0x300\<close> to \<^verbatim>\<open>0x399\<close> that has
  passed the firewall and the length check, the verdict is decided by the first payload
  byte alone: out of range above 120, admitted up to 120.
\<close>

theorem payload_range_check:
  assumes "fst (id_in_ranges (can_id m) s)" and "\<not> fst (dlc_check_loop 0 m s)"
    and "0x300 \<le> can_id m" and "can_id m \<le> 0x399"
  shows "fst (detect_anomaly_reason m s) =
           (if 120 < data m ! 0 then Some PayloadOutOfRange else None)"
  using assms id_in_ranges_state [of "can_id m" s] dlc_check_loop_state [of 0 m s]
  by (cases "id_in_ranges (can_id m) s"; cases "dlc_check_loop 0 m s")
     (simp add: detect_anomaly_reason_def)

text \<open>Scenario 3 of the spec: no baseline exists, and 130 is out of range while 120 is not.\<close>

theorem payload_range_check_witness:
  "fst (detect_anomaly_reason (frame 0x300 1 130) (start_state 10 example_ranges))
     = Some PayloadOutOfRange \<and>
   fst (detect_anomaly_reason (frame 0x300 1 120) (start_state 10 example_ranges)) = None"
proof -
  let ?s = "start_state 10 example_ranges"
  have i: "fst (id_in_ranges (can_id (frame 0x300 1 b)) ?s)" for b
    by (simp add: id_in_ranges_eq start_state_def example_ranges_def)
  have d: "\<not> fst (dlc_check_loop 0 (frame 0x300 1 b) ?s)" for b
    by (simp add: dlc_check_loop.simps start_state_def)
  have "fst (detect_anomaly_reason (frame 0x300 1 130) ?s) = Some PayloadOutOfRange"
    using payload_range_check [OF i d, of 130] by simp
  moreover have "fst (detect_anomaly_reason (frame 0x300 1 120) ?s) = None"
    using payload_range_check [OF i d, of 120] by simp
  ultimately show ?thesis by simp
qed

text \<open>
  Claim C8. When the classifier reports an anomaly, the dispatcher logs one
  \<^verbatim>\<open>ALERT_ANOMALY_DETECTED\<close> and changes nothing else: ring, cursor, counter, baseline
  store and range table are as before.
\<close>

theorem anomalous_frame_not_admitted:
  assumes "fst (detect_anomaly m s)"
  shows "CAN_MessageReceived W N m s = s\<lparr>uart_log := uart_log s @ [ALERT_ANOMALY_DETECTED]\<rparr>"
  using assms detect_anomaly_state [of m s]
  by (cases "detect_anomaly m s")
     (simp add: CAN_MessageReceived_def raise_intrusion_alert_def log_alert_def)

theorem anomalous_frame_not_admitted_witness:
  "CAN_MessageReceived 10 8 (frame 0x050 1 25) (start_state 10 example_ranges) =
     (start_state 10 example_ranges)\<lparr>uart_log := [ALERT_ANOMALY_DETECTED]\<rparr>"
proof -
  have "fst (detect_anomaly (frame 0x050 1 25) (start_state 10 example_ranges))"
    by (simp add: detect_anomaly_def detect_anomaly_reason_def id_in_ranges_eq
        start_state_def example_ranges_def)
  from anomalous_frame_not_admitted [OF this, of 10 8]
  show ?thesis by (simp add: start_state_def)
qed

text \<open>
  Claim C10. \<^verbatim>\<open>detect_anomaly\<close> and \<^verbatim>\<open>id_in_ranges\<close> hand back the state they were
  given (range table, baseline store, occupancy count, window and log), and a second call
  on the state left by the first gives the same verdict.
\<close>

theorem detect_anomaly_read_only:
  "snd (detect_anomaly m s) = s \<and> snd (id_in_ranges ident s) = s \<and>
   fst (detect_anomaly m (snd (detect_anomaly m s))) = fst (detect_anomaly m s)"
  by (simp add: detect_anomaly_state id_in_ranges_state)

section \<open>The baseline store\<close>

lemma store_ok_count: "store_ok s \<Longrightarrow> unat (baseline_count s) \<le> length (baselines s)"
  by (simp add: store_ok_def word_le_nat_alt)

lemma length_entries: "store_ok s \<Longrightarrow> length (entries s) = unat (baseline_count s)"
  using store_ok_count [of s] by (simp add: entries_def)

lemma nth_entries: "k < unat (baseline_count s) \<Longrightarrow> entries s ! k = baselines s ! k"
  by (simp add: entries_def)

lemma lookup_None_iff:
  "store_ok s \<Longrightarrow>
   lookup s i = None \<longleftrightarrow> (\<forall>k < unat (baseline_count s). bl_can_id (baselines s ! k) \<noteq> i)"
proof -
  assume ok: "store_ok s"
  have "lookup s i = None \<longleftrightarrow> (\<forall>k < length (entries s). bl_can_id (entries s ! k) \<noteq> i)"
    unfolding lookup_def find_None_iff by (metis in_set_conv_nth)
  then show ?thesis by (simp add: length_entries [OF ok] nth_entries)
qed

lemma lookup_Some_first:
  assumes "store_ok s" and "lookup s i = Some b"
  shows "\<exists>j < unat (baseline_count s). baselines s ! j = b \<and> bl_can_id b = i \<and>
           (\<forall>k < j. bl_can_id (baselines s ! k) \<noteq> i)"
proof -
  from assms(2) obtain j where j: "j < length (entries s)" "bl_can_id (entries s ! j) = i"
    "b = entries s ! j" "\<forall>k < j. bl_can_id (entries s ! k) \<noteq> i"
    unfolding lookup_def find_Some_iff by blast
  then have "j < unat (baseline_count s)" using assms(1) by (simp add: length_entries)
  with j show ?thesis by (auto simp: nth_entries intro!: exI [of _ j])
qed

lemma learn_loop_found:
  "i \<le> j \<Longrightarrow> j < unat (baseline_count s) \<Longrightarrow> bl_can_id (baselines s ! j) = can_id m \<Longrightarrow>
   (\<forall>k. i \<le> k \<and> k < j \<longrightarrow> bl_can_id (baselines s ! k) \<noteq> can_id m) \<Longrightarrow>
   learn_baseline_loop i m s =
     s\<lparr>baselines := (baselines s)[j := (baselines s ! j)\<lparr>bl_dlc := dlc m\<rparr>]\<rparr>"
proof (induction i m s rule: learn_baseline_loop.induct)
  case (1 i msg s)
  show ?case
  proof (cases "i = j")
    case True
    with "1.prems" show ?thesis by (subst learn_baseline_loop.simps) simp
  next
    case False
    with "1.prems" have "i < j" "bl_can_id (baselines s ! i) \<noteq> can_id msg" by auto
    with "1.prems" "1.IH" show ?thesis by (subst learn_baseline_loop.simps) simp
  qed
qed

lemma learn_loop_absent:
  "(\<forall>k. i \<le> k \<and> k < unat (baseline_count s) \<longrightarrow> bl_can_id (baselines s ! k) \<noteq> can_id m) \<Longrightarrow>
   learn_baseline_loop i m s =
     (if baseline_count s < 100 then
        s\<lparr>baselines := (baselines s)[unat (baseline_count s) := (baselines s ! unat (baseline_count s))
              \<lparr>bl_can_id := can_id m, bl_dlc := dlc m,
               expected_pattern := map (\<lambda>j. data m ! j) [0..<8]\<rparr>],
          baseline_count := baseline_count s + 1\<rparr>
      else s)"
proof (induction i m s rule: learn_baseline_loop.induct)
  case (1 i msg s)
  show ?case
  proof (cases "i < unat (baseline_count s)")
    case True
    with "1.prems" have "bl_can_id (baselines s ! i) \<noteq> can_id msg" by auto
    with True "1.prems" "1.IH" show ?thesis by (subst learn_baseline_loop.simps) simp
  next
    case False
    then show ?thesis by (subst learn_baseline_loop.simps) (simp add: Let_def)
  qed
qed

lemma learn_baseline_present:
  assumes "store_ok s" and "lookup s (can_id m) = Some b"
  shows "\<exists>j < unat (baseline_count s). baselines s ! j = b \<and>
           (\<forall>k < j. bl_can_id (baselines s ! k) \<noteq> can_id m) \<and>
           learn_baseline m s = s\<lparr>baselines := (baselines s)[j := b\<lparr>bl_dlc := dlc m\<rparr>]\<rparr>"
proof -
  from lookup_Some_first [OF assms] obtain j where j: "j < unat (baseline_count s)"
    "baselines s ! j = b" "bl_can_id b = can_id m"
    "\<forall>k < j. bl_can_id (baselines s ! k) \<noteq> can_id m" by blast
  have "learn_baseline m s = s\<lparr>baselines := (baselines s)[j := (baselines s ! j)\<lparr>bl_dlc := dlc m\<rparr>]\<rparr>"
    unfolding learn_baseline_def using j by (intro learn_loop_found) auto
  with j show ?thesis by auto
qed

lemma learn_baseline_absent:
  assumes "store_ok s" and "lookup s (can_id m) = None"
  shows "learn_baseline m s =
     (if baseline_count s < 100 then
        s\<lparr>baselines := (baselines s)[unat (baseline_count s) := (baselines s ! unat (baseline_count s))
              \<lparr>bl_can_id := can_id m, bl_dlc := dlc m,
               expected_pattern := map (\<lambda>j. data m ! j) [0..<8]\<rparr>],
          baseline_count := baseline_count s + 1\<rparr>
      else s)"
  unfolding learn_baseline_def using assms
  by (intro learn_loop_absent) (simp add: lookup_None_iff)

lemma count_inc:
  fixes c :: "8 word"
  assumes "c < 100"
  shows "unat (c + 1) = Suc (unat c)" and "c + 1 \<le> 100" and "unat c < 100"
proof -
  from assms show c: "unat c < 100" by (simp add: word_less_nat_alt)
  then show u: "unat (c + 1) = Suc (unat c)" by (simp add: unat_word_ariths)
  from c u show "c + 1 \<le> 100" by (simp add: word_le_nat_alt)
qed

lemma store_ok_learn: "store_ok s \<Longrightarrow> store_ok (learn_baseline m s)"
proof -
  assume ok: "store_ok s"
  show ?thesis
  proof (cases "lookup s (can_id m)")
    case None
    from learn_baseline_absent [OF ok None] ok show ?thesis
      by (simp add: store_ok_def count_inc)
  next
    case (Some b)
    from learn_baseline_present [OF ok Some] ok show ?thesis
      by (auto simp: store_ok_def)
  qed
qed

lemma learn_keeps_rest:
  "idRanges (learn_baseline_loop i m s) = idRanges s \<and>
   window (learn_baseline_loop i m s) = window s \<and>
   uart_log (learn_baseline_loop i m s) = uart_log s"
  by (induction i m s rule: learn_baseline_loop.induct)
     (subst (1 2 3) learn_baseline_loop.simps, simp add: Let_def)

lemma lookup_None_ids:
  "lookup s i = None \<longleftrightarrow> i \<notin> set (map bl_can_id (entries s))"
  by (auto simp: lookup_def find_None_iff)

lemma ids_learn:
  assumes "store_ok s"
  shows "map bl_can_id (entries (learn_baseline m s)) =
           (if lookup s (can_id m) = None \<and> baseline_count s < 100
            then map bl_can_id (entries s) @ [can_id m]
            else map bl_can_id (entries s))"
proof (cases "lookup s (can_id m)")
  case (Some b)
  from learn_baseline_present [OF assms Some] obtain j where j:
    "j < unat (baseline_count s)" "baselines s ! j = b"
    and l: "learn_baseline m s = s\<lparr>baselines := (baselines s)[j := b\<lparr>bl_dlc := dlc m\<rparr>]\<rparr>"
    by blast
  have "map bl_can_id (entries (learn_baseline m s)) =
          (map bl_can_id (entries s))[j := bl_can_id b]"
    by (simp add: l entries_def take_update_swap map_update)
  also have "\<dots> = map bl_can_id (entries s)"
  proof -
    have "entries s ! j = b" using j by (simp add: nth_entries)
    then have "(map bl_can_id (entries s))[j := bl_can_id b] =
                 map bl_can_id ((entries s)[j := entries s ! j])"
      by (simp add: map_update)
    then show ?thesis by simp
  qed
  finally show ?thesis using Some by simp
next
  case None
  show ?thesis
  proof (cases "baseline_count s < 100")
    case False
    with learn_baseline_absent [OF assms None] None show ?thesis by simp
  next
    case True
    have nl: "unat (baseline_count s) < length (baselines s)"
      using assms count_inc(3) [OF True] by (simp add: store_ok_def)
    show ?thesis
      using None True nl
      by (simp add: learn_baseline_absent [OF assms None] entries_def count_inc(1) [OF True]
          take_Suc_conv_app_nth)
  qed
qed

lemma learn_all_snoc: "learn_all (ms @ [m]) s = learn_baseline m (learn_all ms s)"
  by (simp add: learn_all_def)

lemma learn_all_ids:
  "card (can_id ` set ms) \<le> 100 \<Longrightarrow>
   store_ok (learn_all ms (start_state W rs)) \<and>
   distinct (map bl_can_id (entries (learn_all ms (start_state W rs)))) \<and>
   set (map bl_can_id (entries (learn_all ms (start_state W rs)))) = can_id ` set ms"
proof (induction ms rule: rev_induct)
  case Nil
  show ?case by (simp add: learn_all_def store_ok_start) (simp add: entries_def start_state_def)
next
  case (snoc m ms)
  let ?t = "learn_all ms (start_state W rs)"
  let ?L = "map bl_can_id (entries ?t)"
  have "card (can_id ` set ms) \<le> card (can_id ` set (ms @ [m]))"
    by (intro card_mono) auto
  with snoc.prems have le: "card (can_id ` set ms) \<le> 100" by simp
  from snoc.IH [OF le] have ok: "store_ok ?t" and d: "distinct ?L"
    and st: "set ?L = can_id ` set ms" by simp_all
  have len: "unat (baseline_count ?t) = card (can_id ` set ms)"
    using distinct_card [OF d] st length_entries [OF ok] by simp
  show ?case
  proof (cases "can_id m \<in> can_id ` set ms")
    case True
    then have "lookup ?t (can_id m) \<noteq> None" using st by (simp add: lookup_None_ids)
    with ok d st True show ?thesis
      by (simp add: learn_all_snoc store_ok_learn ids_learn insert_absorb)
  next
    case False
    then have none: "lookup ?t (can_id m) = None" using st by (simp add: lookup_None_ids)
    have "card (can_id ` set (ms @ [m])) = Suc (card (can_id ` set ms))"
      using False by simp
    with snoc.prems len have "unat (baseline_count ?t) < 100" by simp
    then have lt: "baseline_count ?t < 100" by (simp add: word_less_nat_alt)
    from ok d st False none lt show ?thesis
      by (simp add: learn_all_snoc store_ok_learn ids_learn)
  qed
qed

lemma hundred_frames_ids: "can_id ` set hundred_frames = (\<lambda>i. 0x300 + of_nat i) ` {0..<100}"
  by (simp add: hundred_frames_def image_image)

lemma hundred_unat: "i \<le> 100 \<Longrightarrow> unat ((0x300 :: 32 word) + of_nat i) = 768 + i"
  by (simp add: unat_word_ariths unat_of_nat)

lemma hundred_inj: "inj_on (\<lambda>i. (0x300 :: 32 word) + of_nat i) {0..<100}"
proof (rule inj_onI)
  fix i j :: nat
  assume "i \<in> {0..<100}" "j \<in> {0..<100}" and "(0x300 :: 32 word) + of_nat i = 0x300 + of_nat j"
  then have "unat ((0x300 :: 32 word) + of_nat i) = unat ((0x300 :: 32 word) + of_nat j)"
    and "i \<le> 100" "j \<le> 100" by simp_all
  then show "i = j" by (simp add: hundred_unat)
qed

lemma hundred_frames_card: "card (can_id ` set hundred_frames) = 100"
  by (simp add: hundred_frames_ids card_image [OF hundred_inj])

lemma hundred_frames_new: "can_id (frame 0x364 1 25) \<notin> can_id ` set hundred_frames"
proof
  assume "can_id (frame 0x364 1 25) \<in> can_id ` set hundred_frames"
  then obtain i where i: "i < 100" "(0x364 :: 32 word) = 0x300 + of_nat i"
    by (auto simp: hundred_frames_ids)
  then have "unat (0x364 :: 32 word) = unat ((0x300 :: 32 word) + of_nat i)" by simp
  with i(1) show False by (simp add: hundred_unat)
qed

lemma dlc_check_loop_cong:
  "can_id m' = can_id m \<Longrightarrow> dlc m' = dlc m \<Longrightarrow> dlc_check_loop i m' s = dlc_check_loop i m s"
proof (induction i m s rule: dlc_check_loop.induct)
  case (1 i msg s)
  then show ?case
    by (subst dlc_check_loop.simps, subst (2) dlc_check_loop.simps) simp
qed

lemma learn_baseline_loop_cong:
  "can_id m' = can_id m \<Longrightarrow> dlc m' = dlc m \<Longrightarrow> \<forall>j < 8. data m' ! j = data m ! j \<Longrightarrow>
   learn_baseline_loop i m' s = learn_baseline_loop i m s"
proof (induction i m s rule: learn_baseline_loop.induct)
  case (1 i msg s)
  from "1.prems"(3) have mp: "map ((!) (data m')) [0..<8] = map ((!) (data msg)) [0..<8]"
    by simp
  from 1 show ?case
    by (subst learn_baseline_loop.simps, subst (2) learn_baseline_loop.simps)
       (simp add: Let_def mp)
qed

text \<open>
  Claim C6. Starting from the empty store, once the frames learned carry exactly 100
  distinct identifiers the store is full; learning a frame with a further identifier then
  returns the state unchanged (all entries, the count, and everything else), and the
  lookup of that identifier finds nothing. \<open>learn_baseline\<close> is a total function
  that returns a state: there is no error path.
\<close>

theorem capacity_law:
  assumes "card (can_id ` set ms) = 100" and "can_id m \<notin> can_id ` set ms"
  shows "learn_baseline m (learn_all ms (start_state W rs)) = learn_all ms (start_state W rs) \<and>
         lookup (learn_all ms (start_state W rs)) (can_id m) = None \<and>
         baseline_count (learn_all ms (start_state W rs)) = 100"
proof -
  let ?t = "learn_all ms (start_state W rs)"
  from learn_all_ids [of ms W rs] assms(1) have ok: "store_ok ?t"
    and d: "distinct (map bl_can_id (entries ?t))"
    and st: "set (map bl_can_id (entries ?t)) = can_id ` set ms" by simp_all
  have "unat (baseline_count ?t) = 100"
    using distinct_card [OF d] st length_entries [OF ok] assms(1) by simp
  then have full: "baseline_count ?t = 100"
    by (simp add: word_unat_eq_iff)
  have none: "lookup ?t (can_id m) = None" using st assms(2) by (simp add: lookup_None_ids)
  from learn_baseline_absent [OF ok none] full none show ?thesis by simp
qed

text \<open>The identifiers \<^verbatim>\<open>0x300\<close> to \<^verbatim>\<open>0x363\<close> are learned; \<^verbatim>\<open>0x364\<close> is the 101st.\<close>

theorem capacity_law_witness:
  "learn_baseline (frame 0x364 1 25) (learn_all hundred_frames (start_state 10 example_ranges))
     = learn_all hundred_frames (start_state 10 example_ranges) \<and>
   lookup (learn_all hundred_frames (start_state 10 example_ranges)) 0x364 = None \<and>
   baseline_count (learn_all hundred_frames (start_state 10 example_ranges)) = 100"
  using capacity_law [OF hundred_frames_card hundred_frames_new, of 10 example_ranges]
  by simp

text \<open>
  Claim C7. In a well-formed store, learning the same frame a second time changes nothing;
  and learning a frame whose identifier is stored replaces, in the one slot \<open>j\<close> that
  holds its entry \<open>b\<close>, the entry by \<open>b\<close> with the frame's length: identifier and
  pattern of the entry, every other slot, the count and the rest of the state stay.
\<close>

theorem learn_idempotent_and_refresh:
  assumes "store_ok s"
  shows "learn_baseline m (learn_baseline m s) = learn_baseline m s \<and>
         (\<forall>b. lookup s (can_id m) = Some b \<longrightarrow>
            (\<exists>j < unat (baseline_count s). baselines s ! j = b \<and>
               learn_baseline m s = s\<lparr>baselines := (baselines s)[j := b\<lparr>bl_dlc := dlc m\<rparr>]\<rparr>))"
proof
  show "learn_baseline m (learn_baseline m s) = learn_baseline m s"
  proof (cases "lookup s (can_id m)")
    case (Some b)
    from learn_baseline_present [OF assms Some] obtain j where j:
      "j < unat (baseline_count s)" "baselines s ! j = b"
      "\<forall>k < j. bl_can_id (baselines s ! k) \<noteq> can_id m"
      and l: "learn_baseline m s = s\<lparr>baselines := (baselines s)[j := b\<lparr>bl_dlc := dlc m\<rparr>]\<rparr>"
      by blast
    let ?t = "s\<lparr>baselines := (baselines s)[j := b\<lparr>bl_dlc := dlc m\<rparr>]\<rparr>"
    from lookup_Some_first [OF assms Some] have bid: "bl_can_id b = can_id m" by blast
    have jl: "j < length (baselines s)" using j(1) store_ok_count [OF assms] by simp
    have "learn_baseline_loop 0 m ?t =
            ?t\<lparr>baselines := (baselines ?t)[j := (baselines ?t ! j)\<lparr>bl_dlc := dlc m\<rparr>]\<rparr>"
      using j jl bid by (intro learn_loop_found) auto
    also have "\<dots> = ?t" using jl by simp
    finally show ?thesis unfolding l by (simp add: learn_baseline_def)
  next
    case None
    show ?thesis
    proof (cases "baseline_count s < 100")
      case False
      with learn_baseline_absent [OF assms None] show ?thesis by simp
    next
      case True
      let ?n = "unat (baseline_count s)"
      let ?e = "(baselines s ! ?n)\<lparr>bl_can_id := can_id m, bl_dlc := dlc m,
                  expected_pattern := map (\<lambda>j. data m ! j) [0..<8]\<rparr>"
      let ?t = "s\<lparr>baselines := (baselines s)[?n := ?e], baseline_count := baseline_count s + 1\<rparr>"
      have l: "learn_baseline m s = ?t"
        using learn_baseline_absent [OF assms None] True by simp
      have nl: "?n < length (baselines s)"
        using assms count_inc(3) [OF True] by (simp add: store_ok_def)
      have none: "\<forall>k < ?n. bl_can_id (baselines s ! k) \<noteq> can_id m"
        using None lookup_None_iff [OF assms] by simp
      have "learn_baseline_loop 0 m ?t =
              ?t\<lparr>baselines := (baselines ?t)[?n := (baselines ?t ! ?n)\<lparr>bl_dlc := dlc m\<rparr>]\<rparr>"
        using nl none by (intro learn_loop_found) (auto simp: count_inc(1) [OF True])
      also have "\<dots> = ?t" using nl
        by (intro ids_state.equality) (simp_all, intro arg_cong [where f = "list_update _ _"] BaselinePattern.equality, simp_all)
      finally show ?thesis unfolding l by (simp add: learn_baseline_def)
    qed
  qed
next
  show "\<forall>b. lookup s (can_id m) = Some b \<longrightarrow>
          (\<exists>j < unat (baseline_count s). baselines s ! j = b \<and>
             learn_baseline m s = s\<lparr>baselines := (baselines s)[j := b\<lparr>bl_dlc := dlc m\<rparr>]\<rparr>)"
    using learn_baseline_present [OF assms] by blast
qed

theorem learn_idempotent_and_refresh_witness:
  "learn_baseline (frame 0x300 2 25)
     (learn_baseline (frame 0x300 2 25)
       (learn_baseline (frame 0x300 1 25) (start_state 10 example_ranges))) =
   learn_baseline (frame 0x300 2 25)
     (learn_baseline (frame 0x300 1 25) (start_state 10 example_ranges)) \<and>
   entries (learn_baseline (frame 0x300 2 25)
     (learn_baseline (frame 0x300 1 25) (start_state 10 example_ranges))) =
   [\<lparr>bl_can_id = 0x300, bl_dlc = 2, expected_pattern = [25, 0, 0, 0, 0, 0, 0, 0]\<rparr>]"
proof -
  let ?s = "learn_baseline (frame 0x300 1 25) (start_state 10 example_ranges)"
  let ?b = "\<lparr>bl_can_id = 0x300, bl_dlc = 1, expected_pattern = [25, 0, 0, 0, 0, 0, 0, 0 :: 8 word]\<rparr>"
  have ok: "store_ok ?s" by (rule store_ok_learn [OF store_ok_start])
  have c: "unat (baseline_count ?s) = 1"
    unfolding learn_first by simp
  have e: "entries ?s = [?b]"
    unfolding learn_first
    by (simp add: entries_def start_state_def frame_def upt_rec numeral_nat)
  then have l: "lookup ?s (can_id (frame 0x300 2 25)) = Some ?b"
    by (simp add: lookup_def)
  from learn_idempotent_and_refresh [OF ok, of "frame 0x300 2 25"] l
  have i: "learn_baseline (frame 0x300 2 25) (learn_baseline (frame 0x300 2 25) ?s) =
           learn_baseline (frame 0x300 2 25) ?s"
    and "\<exists>j < unat (baseline_count ?s). baselines ?s ! j = ?b \<and>
           learn_baseline (frame 0x300 2 25) ?s =
             ?s\<lparr>baselines := (baselines ?s)[j := ?b\<lparr>bl_dlc := dlc (frame 0x300 2 25)\<rparr>]\<rparr>"
    by blast+
  then have u: "learn_baseline (frame 0x300 2 25) ?s =
             ?s\<lparr>baselines := (baselines ?s)[0 := ?b\<lparr>bl_dlc := 2\<rparr>]\<rparr>"
    using c by auto
  have "entries (learn_baseline (frame 0x300 2 25) ?s) = (entries ?s)[0 := ?b\<lparr>bl_dlc := 2\<rparr>]"
    unfolding u by (simp add: entries_def take_update_swap)
  with i e show ?thesis by simp
qed

text \<open>
  Claim C9, as the code has it. The classifier reads payload byte 0 of a temperature frame
  whatever the declared length, and a new baseline copies all 8 bytes of the payload array.
  So the verdict depends on identifier, length and byte 0 only; the learned store on
  identifier, length and the 8 bytes; and on identifier and length alone when the
  identifier is stored already. No byte beyond the 8 of the array is read.
\<close>

theorem payload_dependence:
  assumes "can_id m = can_id m'" and "dlc m = dlc m'"
  shows "(data m ! 0 = data m' ! 0 \<longrightarrow> detect_anomaly m s = detect_anomaly m' s) \<and>
         ((\<forall>j < 8. data m ! j = data m' ! j) \<longrightarrow> learn_baseline m s = learn_baseline m' s) \<and>
         (lookup s (can_id m) \<noteq> None \<and> store_ok s \<longrightarrow> learn_baseline m s = learn_baseline m' s)"
proof (intro conjI impI)
  assume "data m ! 0 = data m' ! 0"
  with assms dlc_check_loop_cong [OF assms [symmetric], of 0]
  have "detect_anomaly_reason m s = detect_anomaly_reason m' s"
    by (cases "id_in_ranges (can_id m') s";
        cases "dlc_check_loop 0 m (snd (id_in_ranges (can_id m') s))")
       (simp add: detect_anomaly_reason_def)
  then show "detect_anomaly m s = detect_anomaly m' s"
    by (simp add: detect_anomaly_def)
next
  assume "\<forall>j < 8. data m ! j = data m' ! j"
  with assms learn_baseline_loop_cong [of m' m 0 s] show "learn_baseline m s = learn_baseline m' s"
    by (simp add: learn_baseline_def)
next
  assume a: "lookup s (can_id m) \<noteq> None \<and> store_ok s"
  then obtain b where b: "lookup s (can_id m) = Some b" and ok: "store_ok s" by auto
  from learn_baseline_present [OF ok b] obtain j where
    j: "\<forall>k < j. bl_can_id (baselines s ! k) \<noteq> can_id m" "baselines s ! j = b"  "j < unat (baseline_count s)"
    and l: "learn_baseline m s = s\<lparr>baselines := (baselines s)[j := b\<lparr>bl_dlc := dlc m\<rparr>]\<rparr>" by blast
  from lookup_Some_first [OF ok b] have bid: "bl_can_id b = can_id m" by blast
  have "learn_baseline_loop 0 m' s = s\<lparr>baselines := (baselines s)[j := (baselines s ! j)\<lparr>bl_dlc := dlc m'\<rparr>]\<rparr>"
    using j bid assms by (intro learn_loop_found) auto
  with l j assms show "learn_baseline m s = learn_baseline m' s"
    by (simp add: learn_baseline_def)
qed

text \<open>
  The store holds \<^verbatim>\<open>0x300\<close>. Two frames that share identifier, length and byte 0 but
  differ in bytes 1 to 7 get the same verdict; two frames that share identifier and length
  but no payload byte leave the same store, the identifier being stored; and on the empty
  store two frames with the same 8 bytes and different timestamps leave the same store.
\<close>

theorem payload_dependence_witness:
  "detect_anomaly ((frame 0x300 1 25)\<lparr>data := [25, 1, 2, 3, 4, 5, 6, 7]\<rparr>)
       (learn_baseline (frame 0x300 1 25) (start_state 10 example_ranges)) =
     detect_anomaly (frame 0x300 1 25)
       (learn_baseline (frame 0x300 1 25) (start_state 10 example_ranges)) \<and>
   learn_baseline ((frame 0x300 2 99)\<lparr>data := [99, 1, 2, 3, 4, 5, 6, 7]\<rparr>)
       (learn_baseline (frame 0x300 1 25) (start_state 10 example_ranges)) =
     learn_baseline (frame 0x300 2 0)
       (learn_baseline (frame 0x300 1 25) (start_state 10 example_ranges)) \<and>
   learn_baseline (frame 0x300 1 25) (start_state 10 example_ranges) =
     learn_baseline ((frame 0x300 1 25)\<lparr>timestamp := 7\<rparr>) (start_state 10 example_ranges)"
proof -
  let ?s = "learn_baseline (frame 0x300 1 25) (start_state 10 example_ranges)"
  let ?a = "(frame 0x300 1 25)\<lparr>data := [25, 1, 2, 3, 4, 5, 6, 7]\<rparr>"
  let ?b = "(frame 0x300 2 99)\<lparr>data := [99, 1, 2, 3, 4, 5, 6, 7]\<rparr>"
  have ok: "store_ok ?s" by (rule store_ok_learn [OF store_ok_start])
  have e: "entries ?s =
             [\<lparr>bl_can_id = 0x300, bl_dlc = 1, expected_pattern = [25, 0, 0, 0, 0, 0, 0, 0]\<rparr>]"
    unfolding learn_first
    by (simp add: entries_def start_state_def frame_def upt_rec numeral_nat)
  have l: "lookup ?s 0x300 \<noteq> None" by (simp add: lookup_def e)
  have one: "detect_anomaly ?a ?s = detect_anomaly (frame 0x300 1 25) ?s"
    using payload_dependence [of ?a "frame 0x300 1 25" ?s] by (simp add: frame_def)
  have two: "learn_baseline ?b ?s = learn_baseline (frame 0x300 2 0) ?s"
    using payload_dependence [of ?b "frame 0x300 2 0" ?s] ok l by (simp add: frame_def)
  have three: "learn_baseline (frame 0x300 1 25) (start_state 10 example_ranges) =
      learn_baseline ((frame 0x300 1 25)\<lparr>timestamp := 7\<rparr>) (start_state 10 example_ranges)"
    using payload_dependence [of "frame 0x300 1 25" "(frame 0x300 1 25)\<lparr>timestamp := 7\<rparr>"
        "start_state 10 example_ranges"]
    by (simp add: frame_def)
  from one two three show ?thesis by (intro conjI)
qed

text \<open>
  The claim as stated fails: two frames with declared length 0 and the same identifier
  agree on their first 0 payload bytes, yet byte 0 decides the verdict and is copied into
  the pattern.
\<close>

theorem payload_beyond_dlc_counterexample:
  "can_id (frame 0x300 0 0) = can_id (frame 0x300 0 130) \<and>
   dlc (frame 0x300 0 0) = dlc (frame 0x300 0 130) \<and>
   take (unat (dlc (frame 0x300 0 0))) (data (frame 0x300 0 0)) =
     take (unat (dlc (frame 0x300 0 130))) (data (frame 0x300 0 130)) \<and>
   fst (detect_anomaly (frame 0x300 0 0) (start_state 10 example_ranges)) \<noteq>
     fst (detect_anomaly (frame 0x300 0 130) (start_state 10 example_ranges)) \<and>
   learn_baseline (frame 0x300 0 0) (start_state 10 example_ranges) \<noteq>
     learn_baseline (frame 0x300 0 130) (start_state 10 example_ranges)"
proof -
  let ?s = "start_state 10 example_ranges"
  have r: "fst (id_in_ranges 0x300 ?s)"
    by (simp add: id_in_ranges_eq start_state_def example_ranges_def)
  have l: "lookup ?s 0x300 = None"
    by (simp add: lookup_def entries_def start_state_def)
  have a: "\<not> fst (detect_anomaly (frame 0x300 0 0) ?s)"
    by (simp add: detect_anomaly_def detect_anomaly_reason_eq [OF store_ok_start] r l)
  have b: "fst (detect_anomaly (frame 0x300 0 130) ?s)"
    by (simp add: detect_anomaly_def detect_anomaly_reason_eq [OF store_ok_start] r l)
  have "expected_pattern (baselines (learn_baseline (frame 0x300 0 0) ?s) ! 0) ! 0 = 0"
    unfolding learn_first by (simp add: start_state_def upt_rec numeral_nat)
  moreover have "expected_pattern (baselines (learn_baseline (frame 0x300 0 130) ?s) ! 0) ! 0 = 130"
    unfolding learn_first by (simp add: start_state_def upt_rec numeral_nat)
  ultimately have c: "learn_baseline (frame 0x300 0 0) ?s \<noteq> learn_baseline (frame 0x300 0 130) ?s"
    by auto
  from a b c show ?thesis by simp
qed

section \<open>The traffic window\<close>

subsection \<open>Histogram and scan\<close>






lemma count_ids_loop_length: "length (count_ids_loop W i msgs cs) = length cs"
  by (induction W i msgs cs rule: count_ids_loop.induct)
     (subst count_ids_loop.simps, simp add: Let_def)







lemma window_ok_receive: "window_ok W s \<Longrightarrow> window_ok W (CAN_MessageReceived W N m s)"
  using detect_anomaly_state [of m s]
  by (cases "detect_anomaly m s")
     (simp add: CAN_MessageReceived_def raise_intrusion_alert_def log_alert_def Let_def
        window_ok_def)

subsection \<open>The threshold in binary64\<close>











lemma dos_threshold_90: "dos_threshold 90 < 63 * 2 ^ 53"
  by (simp add: dos_threshold_def double_0_7_def double_round_def round_nearest_even_def
      shift53.simps)

subsection \<open>The ring after a run of admitted frames\<close>


























subsection \<open>Flood detection\<close>













end
